theory Spec2Isabelle
  imports Main "HOL-Library.Monad_Syntax" "HOL-Library.Multiset"
begin

section \<open>The sequential odd-even merge sorts of parallel\_odd\_even\_sort.cpp\<close>

text \<open>
  The four sequential functions \<open>sortListing1\<close> .. \<open>sortListing4\<close> of
  \<^verbatim>\<open>src/c++_implementation/parallel_odd_even_sort.cpp\<close> are nests of \<open>for\<close> loops
  around one statement, \<^verbatim>\<open>if (A[x] > A[y]) swap(A[x], A[y])\<close>.

  \<^item> The array is an \<open>int list\<close>; the function's second argument \<open>n\<close> stays a separate
    argument, as in the source.
  \<^item> The loop variables \<open>p\<close>, \<open>k\<close>, \<open>j\<close>, \<open>i\<close>, \<open>m\<close> are C++ \<open>int\<close>s that never go
    negative: they are natural numbers here.  The two subtractions of the source,
    \<open>n - j - k\<close> and \<open>n - k\<close>, are compared with a non-negative loop variable, so a negative
    difference and the truncated difference \<open>0\<close> decide the loop test the same way.  The
    model is one of unbounded integers: it is the C++ program as long as no \<open>int\<close>
    overflows, which is the case for arrays of up to \<open>2^30\<close> elements.
  \<^item> The state threaded through the loops is the array together with a log of every
    compare-exchange executed: the loop variables \<open>p\<close>, \<open>k\<close>, \<open>j\<close> of the group and the
    two indices read (and possibly written).
  \<^item> Each \<open>for\<close> loop is a recursive function in the option monad that follows the loop
    header literally; \<open>None\<close> is a loop that does not return.
\<close>

subsection \<open>State and the compare-exchange statement\<close>

type_synonym event = "nat \<times> nat \<times> nat \<times> nat \<times> nat"

record state =
  arr :: "int list"
  log :: "event list"

text \<open>\<^verbatim>\<open>swap(A[x], A[y])\<close>\<close>

definition swap :: "nat \<Rightarrow> nat \<Rightarrow> 'a list \<Rightarrow> 'a list" where
  "swap x y A = A[x := A ! y, y := A ! x]"

text \<open>\<^verbatim>\<open>if (A[x] > A[y]) swap(A[x], A[y]);\<close> on the array alone.\<close>

definition compare_exchange :: "nat \<Rightarrow> nat \<Rightarrow> 'a::linorder list \<Rightarrow> 'a list" where
  "compare_exchange x y A = (if A ! x > A ! y then swap x y A else A)"

text \<open>The same statement on the state: the indices are logged, then the array is updated.\<close>

definition compexch :: "nat \<Rightarrow> nat \<Rightarrow> nat \<Rightarrow> nat \<Rightarrow> nat \<Rightarrow> state \<Rightarrow> state" where
  "compexch p k j x y s =
     \<lparr>arr = compare_exchange x y (arr s), log = log s @ [(p, k, j, x, y)]\<rparr>"

subsection \<open>sortListing1\<close>

text \<open>\<^verbatim>\<open>for (int i = 0; i < n-j-k; i++) if ((j+i) / (p+p) == (j+i+k)/(p+p)) ...\<close>\<close>

partial_function (option) l1_i :: "nat \<Rightarrow> nat \<Rightarrow> nat \<Rightarrow> nat \<Rightarrow> nat \<Rightarrow> state \<Rightarrow> state option" where
  "l1_i n p k j i s =
     (if i < n - j - k
      then l1_i n p k j (i + 1)
             (if (j + i) div (p + p) = (j + i + k) div (p + p)
              then compexch p k j (j + i) (j + i + k) s else s)
      else Some s)"

text \<open>\<^verbatim>\<open>for (int j = k % p; j + k < n; j += 2 * k)\<close>, entered with \<open>j = k % p\<close>.\<close>

partial_function (option) l1_j :: "nat \<Rightarrow> nat \<Rightarrow> nat \<Rightarrow> nat \<Rightarrow> state \<Rightarrow> state option" where
  "l1_j n p k j s =
     (if j + k < n then l1_i n p k j 0 s \<bind> l1_j n p k (j + 2 * k) else Some s)"

text \<open>\<^verbatim>\<open>for (int k = p; k > 0; k /= 2)\<close>, entered with \<open>k = p\<close>.\<close>

partial_function (option) l1_k :: "nat \<Rightarrow> nat \<Rightarrow> nat \<Rightarrow> state \<Rightarrow> state option" where
  "l1_k n p k s =
     (if k > 0 then l1_j n p k (k mod p) s \<bind> l1_k n p (k div 2) else Some s)"

text \<open>\<^verbatim>\<open>for (int p = 1; p < n; p += p)\<close>, entered with \<open>p = 1\<close>.\<close>

partial_function (option) l1_p :: "nat \<Rightarrow> nat \<Rightarrow> state \<Rightarrow> state option" where
  "l1_p n p s = (if p < n then l1_k n p p s \<bind> l1_p n (p + p) else Some s)"

definition sortListing1 :: "int list \<Rightarrow> nat \<Rightarrow> state option" where
  "sortListing1 A n = l1_p n 1 \<lparr>arr = A, log = []\<rparr>"

subsection \<open>sortListing2\<close>

text \<open>\<^verbatim>\<open>for (int m = i + j; m < n - k; m += 2*p) if (A[m] > A[m+k]) swap(A[m], A[m+k]);\<close>\<close>

partial_function (option) l2_m :: "nat \<Rightarrow> nat \<Rightarrow> nat \<Rightarrow> nat \<Rightarrow> nat \<Rightarrow> state \<Rightarrow> state option" where
  "l2_m n p k j m s =
     (if m < n - k then l2_m n p k j (m + 2 * p) (compexch p k j m (m + k) s) else Some s)"

text \<open>\<^verbatim>\<open>for (int i = 0; i < k; i++)\<close>\<close>

partial_function (option) l2_i :: "nat \<Rightarrow> nat \<Rightarrow> nat \<Rightarrow> nat \<Rightarrow> nat \<Rightarrow> state \<Rightarrow> state option" where
  "l2_i n p k j i s =
     (if i < k then l2_m n p k j (i + j) s \<bind> l2_i n p k j (i + 1) else Some s)"

text \<open>\<^verbatim>\<open>for (int j = k % p; j + k < 2*p; j += 2*k)\<close>\<close>

partial_function (option) l2_j :: "nat \<Rightarrow> nat \<Rightarrow> nat \<Rightarrow> nat \<Rightarrow> state \<Rightarrow> state option" where
  "l2_j n p k j s =
     (if j + k < 2 * p then l2_i n p k j 0 s \<bind> l2_j n p k (j + 2 * k) else Some s)"

partial_function (option) l2_k :: "nat \<Rightarrow> nat \<Rightarrow> nat \<Rightarrow> state \<Rightarrow> state option" where
  "l2_k n p k s =
     (if k > 0 then l2_j n p k (k mod p) s \<bind> l2_k n p (k div 2) else Some s)"

partial_function (option) l2_p :: "nat \<Rightarrow> nat \<Rightarrow> state \<Rightarrow> state option" where
  "l2_p n p s = (if p < n then l2_k n p p s \<bind> l2_p n (p * 2) else Some s)"

definition sortListing2 :: "int list \<Rightarrow> nat \<Rightarrow> state option" where
  "sortListing2 A n = l2_p n 1 \<lparr>arr = A, log = []\<rparr>"

subsection \<open>sortListing3\<close>

text \<open>
  \<^verbatim>\<open>for (int i = std::min(k, n-j-k); i--;)\<close>: the test reads \<open>i\<close>, then decrements it, and
  the body runs with the decremented value.
\<close>

partial_function (option) l3_i :: "nat \<Rightarrow> nat \<Rightarrow> nat \<Rightarrow> nat \<Rightarrow> nat \<Rightarrow> state \<Rightarrow> state option" where
  "l3_i n p k j i s =
     (if i \<noteq> 0
      then l3_i n p k j (i - 1)
             (if (j + (i - 1)) div (2 * p) = (j + (i - 1) + k) div (2 * p)
              then compexch p k j (j + (i - 1)) (j + (i - 1) + k) s else s)
      else Some s)"

partial_function (option) l3_j :: "nat \<Rightarrow> nat \<Rightarrow> nat \<Rightarrow> nat \<Rightarrow> state \<Rightarrow> state option" where
  "l3_j n p k j s =
     (if j + k < n
      then l3_i n p k j (min k (n - j - k)) s \<bind> l3_j n p k (j + 2 * k)
      else Some s)"

partial_function (option) l3_k :: "nat \<Rightarrow> nat \<Rightarrow> nat \<Rightarrow> state \<Rightarrow> state option" where
  "l3_k n p k s =
     (if k > 0 then l3_j n p k (k mod p) s \<bind> l3_k n p (k div 2) else Some s)"

partial_function (option) l3_p :: "nat \<Rightarrow> nat \<Rightarrow> state \<Rightarrow> state option" where
  "l3_p n p s = (if p < n then l3_k n p p s \<bind> l3_p n (p * 2) else Some s)"

definition sortListing3 :: "int list \<Rightarrow> nat \<Rightarrow> state option" where
  "sortListing3 A n = l3_p n 1 \<lparr>arr = A, log = []\<rparr>"

subsection \<open>sortListing4\<close>

text \<open>\<^verbatim>\<open>for (int i = std::min(k, n-j-k); i--;) if (A[j+i] > A[j+i+k]) ...\<close>\<close>

partial_function (option) l4_i :: "nat \<Rightarrow> nat \<Rightarrow> nat \<Rightarrow> nat \<Rightarrow> nat \<Rightarrow> state \<Rightarrow> state option" where
  "l4_i n p k j i s =
     (if i \<noteq> 0
      then l4_i n p k j (i - 1) (compexch p k j (j + (i - 1)) (j + (i - 1) + k) s)
      else Some s)"

text \<open>
  \<^verbatim>\<open>for (int j = k & (p - 1); j + k < n; j += 2*k) if ((j | (2*p - 1)) == ((j+k) | (2*p - 1)))\<close>
\<close>

partial_function (option) l4_j :: "nat \<Rightarrow> nat \<Rightarrow> nat \<Rightarrow> nat \<Rightarrow> state \<Rightarrow> state option" where
  "l4_j n p k j s =
     (if j + k < n
      then (if or j (2 * p - 1) = or (j + k) (2 * p - 1)
            then l4_i n p k j (min k (n - j - k)) s else Some s)
           \<bind> l4_j n p k (j + 2 * k)
      else Some s)"

partial_function (option) l4_k :: "nat \<Rightarrow> nat \<Rightarrow> nat \<Rightarrow> state \<Rightarrow> state option" where
  "l4_k n p k s =
     (if k > 0 then l4_j n p k (and k (p - 1)) s \<bind> l4_k n p (k div 2) else Some s)"

partial_function (option) l4_p :: "nat \<Rightarrow> nat \<Rightarrow> state \<Rightarrow> state option" where
  "l4_p n p s = (if p < n then l4_k n p p s \<bind> l4_p n (p * 2) else Some s)"

definition sortListing4 :: "int list \<Rightarrow> nat \<Rightarrow> state option" where
  "sortListing4 A n = l4_p n 1 \<lparr>arr = A, log = []\<rparr>"

declare l1_i.simps [code] l1_j.simps [code] l1_k.simps [code] l1_p.simps [code]
declare l2_m.simps [code] l2_i.simps [code] l2_j.simps [code] l2_k.simps [code] l2_p.simps [code]
declare l3_i.simps [code] l3_j.simps [code] l3_k.simps [code] l3_p.simps [code]
declare l4_i.simps [code] l4_j.simps [code] l4_k.simps [code] l4_p.simps [code]

section \<open>The comparator schedules\<close>

text \<open>
  The loop nests do not read the array except inside the compare-exchange statement, so
  each nest visits a fixed list of events.  The functions below enumerate these lists loop
  by loop; \<open>run\<close> executes a list of events on a state.  They are proved equal to the loops
  of the previous section and are used in the proofs only.
\<close>

definition run :: "event list \<Rightarrow> state \<Rightarrow> state" where
  "run es s = fold (\<lambda>(p, k, j, x, y). compexch p k j x y) es s"

function steps :: "nat \<Rightarrow> nat \<Rightarrow> nat \<Rightarrow> nat list" where
  "steps d N j = (if 0 < d \<and> j < N then j # steps d N (j + d) else [])"
  by pat_completeness auto
termination
  by (relation "measure (\<lambda>(d, N, j). N - j)") auto

function halvings :: "nat \<Rightarrow> nat list" where
  "halvings k = (if 0 < k then k # halvings (k div 2) else [])"
  by pat_completeness auto
termination
  by (relation "measure (\<lambda>k. k)") auto

function doublings :: "nat \<Rightarrow> nat \<Rightarrow> nat list" where
  "doublings n p = (if 0 < p \<and> p < n then p # doublings n (p + p) else [])"
  by pat_completeness auto
termination
  by (relation "measure (\<lambda>(n, p). n - p)") auto

declare steps.simps [simp del] halvings.simps [simp del] doublings.simps [simp del]






definition ev2_m :: "nat \<Rightarrow> nat \<Rightarrow> nat \<Rightarrow> nat \<Rightarrow> nat \<Rightarrow> event list" where
  "ev2_m n p k j i = map (\<lambda>m. (p, k, j, m, m + k)) (steps (2 * p) (n - k) (i + j))"

definition ev2_i :: "nat \<Rightarrow> nat \<Rightarrow> nat \<Rightarrow> nat \<Rightarrow> event list" where
  "ev2_i n p k j = concat (map (ev2_m n p k j) [0..<k])"

definition ev2_j :: "nat \<Rightarrow> nat \<Rightarrow> nat \<Rightarrow> event list" where
  "ev2_j n p k = concat (map (ev2_i n p k) (steps (2 * k) (2 * p - k) (k mod p)))"

definition ev2_k :: "nat \<Rightarrow> nat \<Rightarrow> event list" where
  "ev2_k n p = concat (map (ev2_j n p) (halvings p))"

definition sched2 :: "nat \<Rightarrow> event list" where
  "sched2 n = concat (map (ev2_k n) (doublings n 1))"

definition ev3_i :: "nat \<Rightarrow> nat \<Rightarrow> nat \<Rightarrow> nat \<Rightarrow> event list" where
  "ev3_i n p k j =
     concat (map (\<lambda>i. if (j + i) div (2 * p) = (j + i + k) div (2 * p)
                       then [(p, k, j, j + i, j + i + k)] else []) (rev [0..<min k (n - j - k)]))"

definition ev3_j :: "nat \<Rightarrow> nat \<Rightarrow> nat \<Rightarrow> event list" where
  "ev3_j n p k = concat (map (ev3_i n p k) (steps (2 * k) (n - k) (k mod p)))"

definition ev3_k :: "nat \<Rightarrow> nat \<Rightarrow> event list" where
  "ev3_k n p = concat (map (ev3_j n p) (halvings p))"

definition sched3 :: "nat \<Rightarrow> event list" where
  "sched3 n = concat (map (ev3_k n) (doublings n 1))"





definition network :: "(nat \<times> nat) list \<Rightarrow> 'a::linorder list \<Rightarrow> 'a list" where
  "network cs A = fold (\<lambda>(x, y). compare_exchange x y) cs A"

definition pairs :: "event list \<Rightarrow> (nat \<times> nat) list" where
  "pairs es = map (\<lambda>(p, k, j, x, y). (x, y)) es"


definition low :: "nat \<Rightarrow> nat \<Rightarrow> nat \<Rightarrow> bool" where
  "low p k x = (x mod (2 * p) + k < 2 * p \<and> k mod p \<le> x mod (2 * k))"


definition cnt :: "nat \<Rightarrow> nat \<Rightarrow> nat \<Rightarrow> nat" where
  "cnt a r k = (a + (k - 1 - r)) div k"




definition stage_ok :: "nat \<Rightarrow> nat \<Rightarrow> nat \<Rightarrow> (nat \<times> nat) list \<Rightarrow> bool" where
  "stage_ok n p k cs =
     ((\<forall>(x, y) \<in> set cs. y = x + k \<and> y < n \<and> x mod (2 * p) + k < 2 * p)
      \<and> (\<forall>x. low p k x \<and> x + k < n \<longrightarrow> (x, x + k) \<in> set cs))"



definition network_pairs :: "nat \<Rightarrow> (nat \<times> nat) set" where
  "network_pairs n =
     {(x, x + 2 ^ c) | a c x. c \<le> a \<and> 2 ^ a < n \<and> low (2 ^ a) (2 ^ c) x \<and> x + 2 ^ c < n}"

section \<open>The loops run their schedules\<close>

lemma run_Nil [simp]: "run [] s = s"
  by (simp add: run_def)

lemma run_append [simp]: "run (es @ fs) s = run fs (run es s)"
  by (simp add: run_def)

lemma run_single [simp]: "run [(p, k, j, x, y)] s = compexch p k j x y s"
  by (simp add: run_def)























lemma concat_map_single: "concat (map (\<lambda>x. [f x]) xs) = map f xs"
  by (induction xs) simp_all






section \<open>Degenerate sizes\<close>

text \<open>
  Claim C7.  For \<open>n = 0\<close> and for \<open>n = 1\<close> the phase loop test \<open>p < n\<close> is false on entry:
  each of the four sequential sorts returns, with the array it was given and with no
  compare-exchange executed.  In particular \<open>[]\<close> is returned as \<open>[]\<close> and \<open>[7]\<close> as \<open>[7]\<close>.
\<close>

theorem degenerate_sizes:
  "(\<forall>A. sortListing1 A 0 = Some \<lparr>arr = A, log = []\<rparr> \<and> sortListing1 A 1 = Some \<lparr>arr = A, log = []\<rparr>
      \<and> sortListing2 A 0 = Some \<lparr>arr = A, log = []\<rparr> \<and> sortListing2 A 1 = Some \<lparr>arr = A, log = []\<rparr>
      \<and> sortListing3 A 0 = Some \<lparr>arr = A, log = []\<rparr> \<and> sortListing3 A 1 = Some \<lparr>arr = A, log = []\<rparr>
      \<and> sortListing4 A 0 = Some \<lparr>arr = A, log = []\<rparr> \<and> sortListing4 A 1 = Some \<lparr>arr = A, log = []\<rparr>)
   \<and> map_option arr (sortListing1 [] 0) = Some [] \<and> map_option arr (sortListing1 [7] 1) = Some [7]
   \<and> map_option arr (sortListing2 [] 0) = Some [] \<and> map_option arr (sortListing2 [7] 1) = Some [7]
   \<and> map_option arr (sortListing3 [] 0) = Some [] \<and> map_option arr (sortListing3 [7] 1) = Some [7]
   \<and> map_option arr (sortListing4 [] 0) = Some [] \<and> map_option arr (sortListing4 [7] 1) = Some [7]"
  by (simp add: sortListing1_def sortListing2_def sortListing3_def sortListing4_def
      l1_p.simps l2_p.simps l3_p.simps l4_p.simps)



lemma network_Nil [simp]: "network [] A = A"
  by (simp add: network_def)

lemma network_append [simp]: "network (cs @ ds) A = network ds (network cs A)"
  by (simp add: network_def)

lemma network_Cons [simp]: "network ((x, y) # cs) A = network cs (compare_exchange x y A)"
  by (simp add: network_def)

lemma length_compare_exchange [simp]: "length (compare_exchange x y A) = length A"
  by (simp add: compare_exchange_def swap_def)




lemma set_steps: "x \<in> set (steps d N j) \<longleftrightarrow> 0 < d \<and> j \<le> x \<and> x < N \<and> d dvd (x - j)"
proof (induction d N j rule: steps.induct)
  case (1 d N j)
  show ?case
  proof (cases "0 < d \<and> j < N")
    case True
    have *: "(x = j \<or> (j + d \<le> x \<and> d dvd (x - (j + d)))) \<longleftrightarrow> (j \<le> x \<and> d dvd (x - j))"
    proof
      assume "x = j \<or> (j + d \<le> x \<and> d dvd (x - (j + d)))"
      then show "j \<le> x \<and> d dvd (x - j)"
      proof
        assume "x = j" then show ?thesis by simp
      next
        assume a: "j + d \<le> x \<and> d dvd (x - (j + d))"
        then obtain m where m: "x = j + d + m" by (auto simp: le_iff_add)
        with a have "d dvd m" by simp
        then have "d dvd (d + m)" by simp
        moreover have "x - j = d + m" using m by simp
        ultimately show ?thesis using m by simp
      qed
    next
      assume a: "j \<le> x \<and> d dvd (x - j)"
      show "x = j \<or> (j + d \<le> x \<and> d dvd (x - (j + d)))"
      proof (cases "x = j")
        case False
        with a have "0 < x - j" by simp
        with a have d: "d \<le> x - j" by (simp add: dvd_imp_le)
        then obtain m where m: "x - j = m + d" by (metis le_add_diff_inverse2)
        with a have "d dvd m" by simp
        moreover have "x - (j + d) = m" using m by simp
        moreover have "j + d \<le> x" using d a by linarith
        ultimately show ?thesis by simp
      qed simp
    qed
    have "set (steps d N j) = insert j (set (steps d N (j + d)))"
      using True by (subst steps.simps) simp
    then have "x \<in> set (steps d N j) \<longleftrightarrow> x = j \<or> x \<in> set (steps d N (j + d))"
      by simp
    also have "\<dots> \<longleftrightarrow> x = j \<or> (0 < d \<and> j + d \<le> x \<and> x < N \<and> d dvd (x - (j + d)))"
      using 1 [OF True] by simp
    also have "\<dots> \<longleftrightarrow> 0 < d \<and> j \<le> x \<and> x < N \<and> d dvd (x - j)"
      using * True by auto
    finally show ?thesis .
  next
    case False
    then have "steps d N j = []" by (subst steps.simps) simp
    with False show ?thesis by auto
  qed
qed


lemma doublings_bounds: "p \<in> set (doublings n q) \<Longrightarrow> q \<le> p \<and> p < n"
proof (induction n q rule: doublings.induct)
  case (1 n q)
  show ?case
  proof (cases "0 < q \<and> q < n")
    case True
    then have "doublings n q = q # doublings n (q + q)" by (subst doublings.simps) simp
    with 1 True show ?thesis by fastforce
  next
    case False
    then have "doublings n q = []" by (subst doublings.simps) simp
    with 1 show ?thesis by simp
  qed
qed



lemma in_ev3_i:
  "(p', k', j', x, y) \<in> set (ev3_i n p k j) \<longleftrightarrow>
     p' = p \<and> k' = k \<and> j' = j \<and> j \<le> x \<and> x < j + k \<and> y = x + k \<and> y < n
     \<and> x div (2 * p) = y div (2 * p)"
proof -
  have "(p', k', j', x, y) \<in> set (ev3_i n p k j) \<longleftrightarrow>
      (\<exists>i<min k (n - j - k). (j + i) div (2 * p) = (j + i + k) div (2 * p) \<and> (p', k', j', x, y) = (p, k, j, j + i, j + i + k))"
    by (auto simp: ev3_i_def split: if_splits)
  also have "\<dots> \<longleftrightarrow> p' = p \<and> k' = k \<and> j' = j \<and> j \<le> x \<and> x < j + k \<and> y = x + k \<and> y < n \<and> x div (2 * p) = y div (2 * p)"
    (is "?L \<longleftrightarrow> ?R")
  proof
    assume ?L then show ?R by auto
  next
    assume a: ?R
    then have "x - j < min k (n - j - k)" "x = j + (x - j)" by auto
    with a show ?L
      by (intro exI [of _ "x - j"]) auto
  qed
  finally show ?thesis .
qed




lemma in_ev2_m:
  "(p', k', j', x, y) \<in> set (ev2_m n p k j i) \<longleftrightarrow>
     p' = p \<and> k' = k \<and> j' = j \<and> x \<in> set (steps (2 * p) (n - k) (i + j)) \<and> y = x + k"
  by (auto simp: ev2_m_def)




















lemma mod_add_lt: "x mod m + k < m \<Longrightarrow> (x + k) mod m = x mod m + k" for m :: nat
proof -
  assume a: "x mod m + k < m"
  have "(x + k) mod m = (x mod m + k) mod m" by (simp add: mod_add_left_eq)
  also have "\<dots> = x mod m + k" using a by (rule mod_less)
  finally show ?thesis .
qed

lemma div_add_lt: "x mod m + k < m \<Longrightarrow> (x + k) div m = x div m" for m :: nat
proof -
  assume a: "x mod m + k < m"
  have "x + k = m * (x div m) + (x mod m + k)" by simp
  then have "(x + k) div m = (m * (x div m) + (x mod m + k)) div m" by simp
  also have "\<dots> = x div m + (x mod m + k) div m"
    using a by (subst div_mult_self4) auto
  also have "\<dots> = x div m" using a by simp
  finally show ?thesis .
qed

lemma same_block_iff:
  fixes m :: nat
  assumes "0 < m"
  shows "x div m = (x + k) div m \<longleftrightarrow> x mod m + k < m"
proof
  assume "x mod m + k < m"
  then show "x div m = (x + k) div m" by (simp add: div_add_lt)
next
  assume e: "x div m = (x + k) div m"
  show "x mod m + k < m"
  proof (rule ccontr)
    assume "\<not> x mod m + k < m"
    then have "m \<le> x mod m + k" by simp
    moreover have "m * (x div m) + x mod m = x" by simp
    ultimately have "m * (x div m) + m \<le> x + k" by linarith
    then have "m * Suc (x div m) \<le> x + k" by simp
    then have "Suc (x div m) \<le> (x + k) div m"
      using assms by (simp add: less_eq_div_iff_mult_less_eq mult.commute)
    with e show False by simp
  qed
qed


lemma network_snoc: "network (cs @ [(x, y)]) A = compare_exchange x y (network cs A)"
  by simp









lemma cnt_one [simp]: "cnt a 0 1 = a"
  by (simp add: cnt_def)

lemma mod_div_decomp:
  fixes m :: nat
  assumes "r < m"
  shows "(m * c + r) mod m = r" "(m * c + r) div m = c"
  using assms by (simp_all add: div_mult_self4)



















lemma halvings_pow:
  "halvings (2 ^ b) = 2 ^ b # (if b = 0 then [] else halvings (2 ^ (b - 1)))"
proof (cases b)
  case 0
  have "halvings 0 = []" by (subst halvings.simps) simp
  then show ?thesis using 0 by (subst halvings.simps) simp
next
  case (Suc c)
  then show ?thesis by (subst halvings.simps) simp
qed



lemma doublings_pow:
  "doublings n (2 ^ a) = (if 2 ^ a < n then 2 ^ a # doublings n (2 ^ Suc a) else [])"
  by (subst doublings.simps) (simp add: mult_2)


lemma dvd_gap:
  fixes d :: nat
  assumes "d dvd u" "d dvd M" "u < M"
  shows "u + d \<le> M"
proof -
  from assms obtain u' M' where u: "u = d * u'" and M: "M = d * M'" by (auto elim!: dvdE)
  with assms(3) have "u' < M'" by auto
  then have "Suc u' \<le> M'" by simp
  then have "d * Suc u' \<le> d * M'" by (rule mult_le_mono2)
  then show ?thesis by (simp add: u M)
qed

text \<open>The start \<open>j\<close> of the run of \<open>k\<close> positions that holds \<open>x\<close>.\<close>

lemma run_start:
  fixes k p x :: nat
  assumes k: "0 < k" and kp: "k mod p \<le> x mod (2 * k)" "x mod (2 * k) < k + k mod p"
  defines "j \<equiv> x - x mod (2 * k) + k mod p"
  shows "k mod p \<le> j" "2 * k dvd (j - k mod p)" "j \<le> x" "x < j + k"
proof -
  have le: "x mod (2 * k) \<le> x" by simp
  show "k mod p \<le> j" using le unfolding j_def by linarith
  have "j - k mod p = x - x mod (2 * k)" using le unfolding j_def by linarith
  also have "\<dots> = 2 * k * (x div (2 * k))" by (simp add: minus_mod_eq_mult_div)
  finally show "2 * k dvd (j - k mod p)" by simp
  show "j \<le> x" using kp(1) le unfolding j_def by linarith
  show "x < j + k" using kp(2) le unfolding j_def by linarith
qed

lemma in_run:
  fixes k p x j :: nat
  assumes k: "0 < k" "k mod p \<le> k"
    and j: "k mod p \<le> j" "2 * k dvd (j - k mod p)" "j \<le> x" "x < j + k"
  shows "x mod (2 * k) = k mod p + (x - j)"
proof -
  from j(2) obtain u where u: "j - k mod p = 2 * k * u" by (auto elim!: dvdE)
  have "x = 2 * k * u + (k mod p + (x - j))" using u j by linarith
  moreover have "k mod p + (x - j) < 2 * k" using k j by linarith
  ultimately show ?thesis by (metis mod_div_decomp(1))
qed

lemma in_pairs: "(x, y) \<in> set (pairs es) \<longleftrightarrow> (\<exists>p k j. (p, k, j, x, y) \<in> set es)"
  by (force simp: pairs_def)

lemma pairs_concat: "pairs (concat ess) = concat (map pairs ess)"
  by (induction ess) (simp_all add: pairs_def)

lemma pow_facts:
  fixes a c :: nat
  assumes "c \<le> a"
  defines "p \<equiv> (2::nat) ^ a" and "k \<equiv> (2::nat) ^ c"
  shows "0 < k" "0 < p" "k \<le> p" "k dvd p" "k mod p \<le> k"
    "(k = p \<and> k mod p = 0) \<or> (k < p \<and> k mod p = k \<and> 2 * k dvd p)"
proof -
  show "0 < k" "0 < p" by (simp_all add: p_def k_def)
  show kp: "k \<le> p" using assms(1) by (simp add: p_def k_def)
  show "k dvd p" using assms(1) by (simp add: p_def k_def le_imp_power_dvd)
  show "k mod p \<le> k" by simp
  show "(k = p \<and> k mod p = 0) \<or> (k < p \<and> k mod p = k \<and> 2 * k dvd p)"
  proof (cases "c = a")
    case True
    then show ?thesis by (simp add: p_def k_def)
  next
    case False
    with assms(1) have "Suc c \<le> a" by simp
    then have "(2::nat) ^ Suc c dvd 2 ^ a" by (rule le_imp_power_dvd)
    moreover have "(2::nat) ^ c < 2 ^ a" using False assms(1) by simp
    ultimately show ?thesis by (simp add: p_def k_def)
  qed
qed


lemma in_ev3_j:
  "(p', k', j, x, y) \<in> set (ev3_j n p k) \<longleftrightarrow>
     p' = p \<and> k' = k \<and> j \<in> set (steps (2 * k) (n - k) (k mod p))
     \<and> j \<le> x \<and> x < j + k \<and> y = x + k \<and> y < n \<and> x div (2 * p) = y div (2 * p)"
  by (auto simp: ev3_j_def in_ev3_i)

lemma low_run:
  assumes "low p k x" "0 < k" "k \<le> p"
  shows "k mod p \<le> x mod (2 * k)" "x mod (2 * k) < k + k mod p"
proof -
  show 1: "k mod p \<le> x mod (2 * k)" using assms by (simp add: low_def)
  show "x mod (2 * k) < k + k mod p"
  proof (cases "k = p")
    case True
    with assms show ?thesis by (simp add: low_def)
  next
    case False
    with assms have "k mod p = k" by simp
    moreover have "x mod (2 * k) < 2 * k" using assms by simp
    ultimately show ?thesis by simp
  qed
qed


lemma stage3_ok:
  assumes k: "0 < k" "k \<le> p"
  shows "stage_ok n p k (pairs (ev3_j n p k))"
  unfolding stage_ok_def
proof (intro conjI allI impI)
  have p: "0 < 2 * p" using k by simp
  show "\<forall>(x, y)\<in>set (pairs (ev3_j n p k)). y = x + k \<and> y < n \<and> x mod (2 * p) + k < 2 * p"
    using same_block_iff [OF p] by (auto simp: in_pairs in_ev3_j)
  fix x assume x: "low p k x \<and> x + k < n"
  define j where "j = x - x mod (2 * k) + k mod p"
  have r: "k mod p \<le> x mod (2 * k)" "x mod (2 * k) < k + k mod p"
    using low_run [of p k x] x k by simp_all
  have j: "k mod p \<le> j" "2 * k dvd (j - k mod p)" "j \<le> x" "x < j + k"
    using run_start [OF k(1) r] by (simp_all add: j_def)
  have "j < n - k" using j(3) x by linarith
  then have "j \<in> set (steps (2 * k) (n - k) (k mod p))"
    using j k by (simp add: set_steps)
  moreover have "x div (2 * p) = (x + k) div (2 * p)"
    using x same_block_iff [OF p, of x k] by (simp add: low_def)
  ultimately show "(x, x + k) \<in> set (pairs (ev3_j n p k))"
    using x j by (auto simp: in_pairs in_ev3_j)
qed



lemma sched3_shape:
  "pairs (sched3 n)
   = concat (map (\<lambda>p. concat (map (\<lambda>k. pairs (ev3_j n p k)) (halvings p))) (doublings n 1))"
  by (simp add: sched3_def ev3_k_def pairs_concat comp_def)








lemma block_of_run:
  fixes k p j x :: nat
  assumes k: "0 < k" and p: "0 < p"
    and kp: "(k = p \<and> k mod p = 0) \<or> (k < p \<and> k mod p = k \<and> 2 * k dvd p)"
    and j: "k mod p \<le> j" "2 * k dvd (j - k mod p)" "j \<le> x" "x < j + k"
  shows "j mod (2 * p) + k < 2 * p \<longleftrightarrow> x mod (2 * p) + k < 2 * p"
proof -
  define M where "M = 2 * p"
  define e where "e = x - j"
  have x: "x = j + e" and e: "e < k" using j by (simp_all add: e_def)
  have M0: "0 < M" using p by (simp add: M_def)
  from kp show ?thesis
  proof
    assume a: "k = p \<and> k mod p = 0"
    then have "M dvd j" using j(2) by (simp add: M_def)
    then have jm: "j mod M = 0" by simp
    then have "j mod M + e < M" using e a by (simp add: M_def)
    then have "x mod M = j mod M + e" unfolding x by (rule mod_add_lt)
    then show ?thesis using jm e a by (simp add: M_def)
  next
    assume a: "k < p \<and> k mod p = k \<and> 2 * k dvd p"
    then have "2 * k dvd p * 2" by (intro dvd_mult2) simp
    then have dM: "2 * k dvd M" by (simp add: M_def mult.commute)
    from j(2) a obtain u where u: "j - k = 2 * k * u" by (auto elim!: dvdE)
    then have ju: "j = 2 * k * u + k" using j(1) a by simp
    have "j mod (2 * k) = k" unfolding ju using k by (simp add: mod_div_decomp(1))
    then have "(j mod M) mod (2 * k) = k" using dM by (simp add: mod_mod_cancel)
    then have "2 * k * (j mod M div (2 * k)) + k = j mod M"
      using mult_div_mod_eq [of "2 * k" "j mod M"] by simp
    then have "j mod M + k = 2 * k * Suc (j mod M div (2 * k))" by simp
    then have dj: "2 * k dvd (j mod M + k)" by (metis dvd_triv_left)
    show ?thesis
    proof (cases "j mod M + k < M")
      case True
      then have "j mod M + k + 2 * k \<le> M" using dvd_gap [OF dj dM] by simp
      then have lt: "j mod M + e + k < M" using e by linarith
      then have "j mod M + e < M" by simp
      then have "x mod M = j mod M + e" unfolding x by (rule mod_add_lt)
      with True lt show ?thesis by (simp add: M_def)
    next
      case False
      have "j mod M < M" using M0 by simp
      have "\<not> M < j mod M + k"
      proof
        assume "M < j mod M + k"
        then have "M + 2 * k \<le> j mod M + k" using dvd_gap [OF dM dj] by simp
        with \<open>j mod M < M\<close> show False by linarith
      qed
      with False have eq: "j mod M + k = M" by simp
      then have "j mod M + e < M" using e by linarith
      then have "x mod M = j mod M + e" unfolding x by (rule mod_add_lt)
      then have "\<not> x mod M + k < M" using eq by linarith
      with False show ?thesis by (simp add: M_def)
    qed
  qed
qed



lemma in_ev2_j:
  "(p', k', j, x, y) \<in> set (ev2_j n p k) \<longleftrightarrow>
     p' = p \<and> k' = k \<and> j \<in> set (steps (2 * k) (2 * p - k) (k mod p))
     \<and> (\<exists>i<k. x \<in> set (steps (2 * p) (n - k) (i + j))) \<and> y = x + k"
  by (auto simp: ev2_j_def ev2_i_def in_ev2_m)

lemma in_pairs_ev2_j:
  assumes k: "0 < k" and p: "0 < p"
  shows "(x, y) \<in> set (pairs (ev2_j n p k)) \<longleftrightarrow>
      (\<exists>j x0. k mod p \<le> j \<and> j < 2 * p - k \<and> 2 * k dvd (j - k mod p)
        \<and> j \<le> x0 \<and> x0 < j + k \<and> x0 \<le> x \<and> x < n - k \<and> 2 * p dvd (x - x0) \<and> y = x + k)"
    (is "?L \<longleftrightarrow> ?R")
proof
  assume ?L
  then obtain p' k' j where "(p', k', j, x, y) \<in> set (ev2_j n p k)"
    unfolding in_pairs by blast
  then have j: "j \<in> set (steps (2 * k) (2 * p - k) (k mod p))"
    and "\<exists>i<k. x \<in> set (steps (2 * p) (n - k) (i + j))" and y: "y = x + k"
    unfolding in_ev2_j by simp_all
  then obtain i where i: "i < k" "x \<in> set (steps (2 * p) (n - k) (i + j))" by blast
  have "k mod p \<le> j \<and> j < 2 * p - k \<and> 2 * k dvd (j - k mod p)"
    using j unfolding set_steps by simp
  moreover have "i + j \<le> x \<and> x < n - k \<and> 2 * p dvd (x - (i + j))"
    using i(2) unfolding set_steps by simp
  ultimately show ?R
    using i(1) y by (intro exI [of _ j] exI [of _ "i + j"]) simp
next
  assume ?R
  then obtain j x0 where a: "k mod p \<le> j" "j < 2 * p - k" "2 * k dvd (j - k mod p)"
    "j \<le> x0" "x0 < j + k" "x0 \<le> x" "x < n - k" "2 * p dvd (x - x0)" "y = x + k"
    by blast
  have 1: "j \<in> set (steps (2 * k) (2 * p - k) (k mod p))"
    unfolding set_steps using a k by simp
  have "x \<in> set (steps (2 * p) (n - k) (x0 - j + j))"
    unfolding set_steps using a p by simp
  moreover have "x0 - j < k" using a by simp
  ultimately have 2: "\<exists>i<k. x \<in> set (steps (2 * p) (n - k) (i + j))" by blast
  have "(p, k, j, x, y) \<in> set (ev2_j n p k)"
    unfolding in_ev2_j using 1 2 a(9) by simp
  then show ?L unfolding in_pairs by blast
qed

lemma stage2_ok:
  assumes ca: "c \<le> a"
  shows "stage_ok n (2 ^ a) (2 ^ c) (pairs (ev2_j n (2 ^ a) (2 ^ c)))"
proof -
  define p :: nat where "p = 2 ^ a"
  define k :: nat where "k = 2 ^ c"
  note pf = pow_facts [OF ca, folded p_def k_def]
  have p2: "0 < 2 * p" using pf by simp
  have d2: "2 * k dvd 2 * p" using pf(4) by simp
  note mem = in_pairs_ev2_j [OF pf(1,2)]
  have "stage_ok n p k (pairs (ev2_j n p k))"
    unfolding stage_ok_def
  proof (intro conjI allI impI)
    show "\<forall>(x, y)\<in>set (pairs (ev2_j n p k)). y = x + k \<and> y < n \<and> x mod (2 * p) + k < 2 * p"
    proof clarify
      fix x y assume "(x, y) \<in> set (pairs (ev2_j n p k))"
      then obtain j x0 where j: "k mod p \<le> j" "2 * k dvd (j - k mod p)" "j \<le> x0" "x0 < j + k"
        and b: "j < 2 * p - k" and x: "x0 \<le> x" "x < n - k" "2 * p dvd (x - x0)" and y: "y = x + k"
        unfolding mem by blast
      have "j mod (2 * p) = j" using b by simp
      then have "j mod (2 * p) + k < 2 * p" using b by simp
      then have 1: "x0 mod (2 * p) + k < 2 * p"
        using block_of_run [OF pf(1,2,6) j] by simp
      from x(3) obtain u where "x - x0 = 2 * p * u" by (auto elim!: dvdE)
      then have "x = x0 + 2 * p * u" using x(1) by simp
      then have "x mod (2 * p) = x0 mod (2 * p)" by simp
      with 1 x y show "y = x + k \<and> y < n \<and> x mod (2 * p) + k < 2 * p" by simp
    qed
    fix x assume x: "low p k x \<and> x + k < n"
    define x0 where "x0 = x mod (2 * p)"
    define j where "j = x0 - x0 mod (2 * k) + k mod p"
    have x0: "x0 + k < 2 * p" using x by (simp add: low_def x0_def)
    have "x0 mod (2 * k) = x mod (2 * k)"
      unfolding x0_def using d2 by (rule mod_mod_cancel)
    then have r: "k mod p \<le> x0 mod (2 * k)" "x0 mod (2 * k) < k + k mod p"
      using low_run [of p k x] x pf by simp_all
    have j: "k mod p \<le> j" "2 * k dvd (j - k mod p)" "j \<le> x0" "x0 < j + k"
      using run_start [OF pf(1) r] by (simp_all add: j_def)
    have "j < 2 * p - k" using j(3) x0 by linarith
    moreover have "x0 \<le> x" by (simp add: x0_def)
    moreover have "2 * p dvd (x - x0)" by (simp add: x0_def minus_mod_eq_mult_div)
    moreover have "x < n - k" using x by linarith
    ultimately show "(x, x + k) \<in> set (pairs (ev2_j n p k))"
      unfolding mem using j by (intro exI [of _ j] exI [of _ x0]) simp
  qed
  then show ?thesis by (simp add: p_def k_def)
qed

lemma sched2_shape:
  "pairs (sched2 n)
   = concat (map (\<lambda>p. concat (map (\<lambda>k. pairs (ev2_j n p k)) (halvings p))) (doublings n 1))"
  by (simp add: sched2_def ev2_k_def pairs_concat comp_def)














lemma in_halvings_pow: "k \<in> set (halvings (2 ^ a)) \<longleftrightarrow> (\<exists>c\<le>a. k = 2 ^ c)"
proof (induction a)
  case 0
  show ?case by (simp add: halvings_pow [of 0, simplified])
next
  case (Suc a)
  have "k \<in> set (halvings (2 ^ Suc a)) \<longleftrightarrow> k = 2 ^ Suc a \<or> (\<exists>c\<le>a. k = 2 ^ c)"
    using Suc by (simp add: halvings_pow [of "Suc a", simplified])
  also have "\<dots> \<longleftrightarrow> (\<exists>c\<le>Suc a. k = 2 ^ c)"
    by (metis le_Suc_eq)
  finally show ?case .
qed

lemma in_doublings_pow: "p \<in> set (doublings n (2 ^ a)) \<longleftrightarrow> (\<exists>b\<ge>a. p = 2 ^ b \<and> 2 ^ b < n)"
proof (induction "n - 2 ^ a" arbitrary: a rule: less_induct)
  case less
  show ?case
  proof (cases "2 ^ a < n")
    case True
    have "(0::nat) < 2 ^ a" by simp
    then have "n - 2 * 2 ^ a < n - 2 ^ a" using True by linarith
    then have "n - 2 ^ Suc a < n - 2 ^ a" by simp
    from less [OF this]
    have IH: "p \<in> set (doublings n (2 ^ Suc a)) \<longleftrightarrow> (\<exists>b\<ge>Suc a. p = 2 ^ b \<and> 2 ^ b < n)" .
    have "p \<in> set (doublings n (2 ^ a)) \<longleftrightarrow> p = 2 ^ a \<or> (\<exists>b\<ge>Suc a. p = 2 ^ b \<and> 2 ^ b < n)"
      using True IH by (subst doublings_pow) simp
    also have "\<dots> \<longleftrightarrow> (\<exists>b\<ge>a. p = 2 ^ b \<and> 2 ^ b < n)"
      using True by (metis Suc_leD Suc_le_eq le_less order_refl)
    finally show ?thesis .
  next
    case False
    have "\<not> (\<exists>b\<ge>a. p = 2 ^ b \<and> 2 ^ b < n)"
    proof
      assume "\<exists>b\<ge>a. p = 2 ^ b \<and> 2 ^ b < n"
      then obtain b where b: "a \<le> b" "2 ^ b < n" by blast
      then have "(2::nat) ^ a \<le> 2 ^ b" by simp
      with b False show False by simp
    qed
    then show ?thesis using False by (subst doublings_pow) simp
  qed
qed

lemma in_doublings_1: "p \<in> set (doublings n 1) \<longleftrightarrow> (\<exists>b. p = 2 ^ b \<and> 2 ^ b < n)"
  using in_doublings_pow [of p n 0] by simp






lemma in_shape:
  fixes st :: "nat \<Rightarrow> nat \<Rightarrow> (nat \<times> nat) list"
  assumes "cs = concat (map (\<lambda>p. concat (map (st p) (halvings p))) (doublings n 1))"
  shows "xy \<in> set cs \<longleftrightarrow> (\<exists>a c. c \<le> a \<and> 2 ^ a < n \<and> xy \<in> set (st (2 ^ a) (2 ^ c)))"
proof -
  have "xy \<in> set cs \<longleftrightarrow> (\<exists>p. p \<in> set (doublings n 1) \<and> (\<exists>k. k \<in> set (halvings p) \<and> xy \<in> set (st p k)))"
    unfolding assms by auto
  also have "\<dots> \<longleftrightarrow> (\<exists>a. 2 ^ a < n \<and> (\<exists>k. k \<in> set (halvings (2 ^ a)) \<and> xy \<in> set (st (2 ^ a) k)))"
    unfolding in_doublings_1 by blast
  also have "\<dots> \<longleftrightarrow> (\<exists>a c. c \<le> a \<and> 2 ^ a < n \<and> xy \<in> set (st (2 ^ a) (2 ^ c)))"
    unfolding in_halvings_pow by blast
  finally show ?thesis .
qed

lemma exact_network_pairs:
  fixes st :: "nat \<Rightarrow> nat \<Rightarrow> (nat \<times> nat) list"
  assumes shape: "cs = concat (map (\<lambda>p. concat (map (st p) (halvings p))) (doublings n 1))"
    and ok: "\<And>a c. c \<le> a \<Longrightarrow> stage_ok n (2 ^ a) (2 ^ c) (st (2 ^ a) (2 ^ c))"
    and lo: "\<And>a c x y. c \<le> a \<Longrightarrow> (x, y) \<in> set (st (2 ^ a) (2 ^ c))
        \<Longrightarrow> 2 ^ c mod 2 ^ a \<le> x mod (2 * 2 ^ c)"
  shows "set cs = network_pairs n"
proof (intro set_eqI iffI)
  fix xy assume "xy \<in> set cs"
  then obtain a c where ac: "c \<le> a" "(2::nat) ^ a < n" "xy \<in> set (st (2 ^ a) (2 ^ c))"
    unfolding in_shape [OF shape] by blast
  obtain x y where xy: "xy = (x, y)" by (cases xy)
  from ok [OF ac(1)] ac(3) have y: "y = x + 2 ^ c" "y < n" "x mod (2 * 2 ^ a) + 2 ^ c < 2 * 2 ^ a"
    unfolding stage_ok_def xy by auto
  have "low (2 ^ a) (2 ^ c) x"
    unfolding low_def using y(3) lo [OF ac(1) ac(3) [unfolded xy]] by simp
  then show "xy \<in> network_pairs n"
    unfolding network_pairs_def xy using ac y by blast
next
  fix xy assume "xy \<in> network_pairs n"
  then obtain a c x where ac: "c \<le> a" "(2::nat) ^ a < n" "low (2 ^ a) (2 ^ c) x" "x + 2 ^ c < n"
    and xy: "xy = (x, x + 2 ^ c)"
    unfolding network_pairs_def by blast
  from ok [OF ac(1)] ac(3,4) have "(x, x + 2 ^ c) \<in> set (st (2 ^ a) (2 ^ c))"
    unfolding stage_ok_def by blast
  then show "xy \<in> set cs"
    unfolding in_shape [OF shape] xy using ac by blast
qed

lemma pairs_sched3: "set (pairs (sched3 n)) = network_pairs n"
proof (rule exact_network_pairs [OF sched3_shape])
  show "stage_ok n (2 ^ a) (2 ^ c) (pairs (ev3_j n (2 ^ a) (2 ^ c)))" if "c \<le> a" for a c
    using that by (intro stage3_ok) simp_all
  fix a c x y assume ca: "c \<le> a" and m: "(x, y) \<in> set (pairs (ev3_j n (2 ^ a) (2 ^ c)))"
  note pf = pow_facts [OF ca]
  from m obtain j where j: "j \<in> set (steps (2 * 2 ^ c) (n - 2 ^ c) (2 ^ c mod 2 ^ a))"
    "j \<le> x" "x < j + 2 ^ c"
    unfolding in_pairs in_ev3_j by blast
  from j(1) have "2 ^ c mod 2 ^ a \<le> j" "2 * 2 ^ c dvd (j - 2 ^ c mod 2 ^ a)"
    unfolding set_steps by simp_all
  from in_run [OF pf(1,5) this j(2,3)]
  show "2 ^ c mod 2 ^ a \<le> x mod (2 * 2 ^ c)" by simp
qed


lemma pairs_sched2: "set (pairs (sched2 n)) = network_pairs n"
proof (rule exact_network_pairs [OF sched2_shape])
  show "stage_ok n (2 ^ a) (2 ^ c) (pairs (ev2_j n (2 ^ a) (2 ^ c)))" if "c \<le> a" for a c
    using that by (rule stage2_ok)
  fix a c x y assume ca: "c \<le> a" and m: "(x, y) \<in> set (pairs (ev2_j n (2 ^ a) (2 ^ c)))"
  note pf = pow_facts [OF ca]
  from m obtain j x0 where j: "2 ^ c mod 2 ^ a \<le> j" "2 * 2 ^ c dvd (j - 2 ^ c mod 2 ^ a)"
    "j \<le> x0" "x0 < j + 2 ^ c" and x: "x0 \<le> x" "2 * 2 ^ a dvd (x - x0)"
    unfolding in_pairs_ev2_j [OF pf(1,2)] by blast
  have "2 * (2::nat) ^ c dvd 2 * 2 ^ a" using pf(4) by simp
  then have "2 * 2 ^ c dvd (x - x0)" using x(2) by (rule dvd_trans)
  then obtain u where "x - x0 = 2 * 2 ^ c * u" by (rule dvdE)
  with x(1) have "x = x0 + 2 * 2 ^ c * u" by linarith
  then have "x mod (2 * 2 ^ c) = x0 mod (2 * 2 ^ c)" by simp
  with in_run [OF pf(1,5) j]
  show "2 ^ c mod 2 ^ a \<le> x mod (2 * 2 ^ c)" by simp
qed









end
